theory Spec2Isabelle
  imports Main "HOL-Library.Multiset"
begin

section \<open>The AVL tree of avl\_tree.cc\<close>

text \<open>
  A shallow embedding of the class \<open>AVLTree\<close> of \<^verbatim>\<open>src/avl_tree.cc\<close>.

  The nodes of the source are heap cells linked by owning pointers; the class never shares a
  node between two parents, so a pointer to a node is modelled by the subtree it points to
  and the null pointer by \<open>Null\<close>. The fields of \<^verbatim>\<open>struct Node\<close> are kept in the
  order of the source: \<open>data\<close>, \<open>left\<close>, \<open>right\<close> and the cached height.

  The keys and the cached heights are C++ \<^verbatim>\<open>int\<close>s. Keys are only compared, never
  computed with, and a cached height is at most the number of nodes, so both are modelled
  by unbounded integers.

  Dereferencing a null pointer has no defined behaviour in the source. Every function that
  dereferences a pointer it has not tested returns an \<open>option\<close>, and \<open>None\<close> stands for
  such a dereference.
\<close>

datatype tree = Null | Node (data: int) (left: tree) (right: tree) int

subsection \<open>Heights and balance factors (lines 23--41)\<close>

fun height :: "tree \<Rightarrow> int" where
  "height Null = 0"
| "height (Node d l r h) = h"

fun updateHeight :: "tree \<Rightarrow> tree" where
  "updateHeight Null = Null"
| "updateHeight (Node d l r h) = Node d l r (1 + max (height l) (height r))"

fun getBalance :: "tree \<Rightarrow> int" where
  "getBalance Null = 0"
| "getBalance (Node d l r h) = height l - height r"

subsection \<open>Rotations (lines 50--81)\<close>

text \<open>
  \<open>rightRotate y\<close> reads \<^verbatim>\<open>y->left\<close> and then \<^verbatim>\<open>x->right\<close> without a test;
  \<open>leftRotate x\<close> reads \<^verbatim>\<open>x->right\<close> and then \<^verbatim>\<open>y->left\<close>.
  The height of the node that moves down is recomputed first.
\<close>

fun rightRotate :: "tree \<Rightarrow> tree option" where
  "rightRotate Null = None"
| "rightRotate (Node yd Null T3 yh) = None"
| "rightRotate (Node yd (Node xd T1 T2 xh) T3 yh) =
     (let y' = updateHeight (Node yd T2 T3 yh);
          x' = updateHeight (Node xd T1 y' xh)
      in Some x')"

fun leftRotate :: "tree \<Rightarrow> tree option" where
  "leftRotate Null = None"
| "leftRotate (Node xd T1 Null xh) = None"
| "leftRotate (Node xd T1 (Node yd T2 T3 yh) xh) =
     (let x' = updateHeight (Node xd T1 T2 xh);
          y' = updateHeight (Node yd x' T3 yh)
      in Some y')"

subsection \<open>Insertion (lines 85--117)\<close>

text \<open>
  Lines 96--116 of \<open>insertNode\<close>, which run after either recursive call has been
  reattached: the height of the node is recomputed, and the four tests are made in the
  order of the source. A test \<^verbatim>\<open>balance > 1 && key < node->left->data\<close> reads
  \<^verbatim>\<open>node->left\<close> only when its first conjunct holds.
\<close>

definition insertNode_rebalance :: "tree \<Rightarrow> int \<Rightarrow> tree option" where
  "insertNode_rebalance node0 key =
     (case updateHeight node0 of
        Null \<Rightarrow> None
      | Node d l r h \<Rightarrow>
          (let balance = getBalance (Node d l r h) in
           if balance > 1 \<and> l = Null then None
           else if balance > 1 \<and> key < data l then rightRotate (Node d l r h)
           else if balance < -1 \<and> r = Null then None
           else if balance < -1 \<and> key > data r then leftRotate (Node d l r h)
           else if balance > 1 \<and> key > data l then
             (case leftRotate l of
                None \<Rightarrow> None
              | Some l' \<Rightarrow> rightRotate (Node d l' r h))
           else if balance < -1 \<and> key < data r then
             (case rightRotate r of
                None \<Rightarrow> None
              | Some r' \<Rightarrow> leftRotate (Node d l r' h))
           else Some (Node d l r h)))"

fun insertNode :: "tree \<Rightarrow> int \<Rightarrow> tree option" where
  "insertNode Null key = Some (Node key Null Null 1)"
| "insertNode (Node d l r h) key =
     (if key < d then
        (case insertNode l key of
           None \<Rightarrow> None
         | Some l' \<Rightarrow> insertNode_rebalance (Node d l' r h) key)
      else if key > d then
        (case insertNode r key of
           None \<Rightarrow> None
         | Some r' \<Rightarrow> insertNode_rebalance (Node d l r' h) key)
      else Some (Node d l r h))"

subsection \<open>Deletion (lines 120--182)\<close>

fun minValueNode :: "tree \<Rightarrow> tree" where
  "minValueNode Null = Null"
| "minValueNode (Node d Null r h) = Node d Null r h"
| "minValueNode (Node d (Node ld ll lr lh) r h) = minValueNode (Node ld ll lr lh)"

text \<open>
  Lines 161--181 of \<open>deleteNode\<close>, reached with a non-null \<open>root\<close> (line 158 returns
  before them otherwise). \<open>getBalance\<close> tests its argument, so the tests themselves read no
  null pointer; the rotations may.
\<close>

definition deleteNode_rebalance :: "tree \<Rightarrow> tree option" where
  "deleteNode_rebalance root0 =
     (case updateHeight root0 of
        Null \<Rightarrow> None
      | Node d l r h \<Rightarrow>
          (let balance = getBalance (Node d l r h) in
           if balance > 1 \<and> getBalance l \<ge> 0 then rightRotate (Node d l r h)
           else if balance > 1 \<and> getBalance l < 0 then
             (case leftRotate l of
                None \<Rightarrow> None
              | Some l' \<Rightarrow> rightRotate (Node d l' r h))
           else if balance < -1 \<and> getBalance r \<le> 0 then leftRotate (Node d l r h)
           else if balance < -1 \<and> getBalance r > 0 then
             (case rightRotate r of
                None \<Rightarrow> None
              | Some r' \<Rightarrow> leftRotate (Node d l r' h))
           else Some (Node d l r h)))"

text \<open>
  In the branch for a node with at most one child, \<^verbatim>\<open>*root = *temp\<close> overwrites all
  four fields of the node with those of its child and the child's cell is freed, so the
  node continues as the child; with no child the function returns null at line 159.
  In the branch for two children the key of the leftmost node of the right subtree is
  copied into the node and then deleted from the right subtree.
\<close>

fun deleteNode :: "tree \<Rightarrow> int \<Rightarrow> tree option" where
  "deleteNode Null key = Some Null"
| "deleteNode (Node d l r h) key =
     (if key < d then
        (case deleteNode l key of
           None \<Rightarrow> None
         | Some l' \<Rightarrow> deleteNode_rebalance (Node d l' r h))
      else if key > d then
        (case deleteNode r key of
           None \<Rightarrow> None
         | Some r' \<Rightarrow> deleteNode_rebalance (Node d l r' h))
      else if l = Null \<or> r = Null then
        (let temp = (if l \<noteq> Null then l else r) in
         if temp = Null then Some Null
         else deleteNode_rebalance temp)
      else
        (let temp = minValueNode r in
         case deleteNode r (data temp) of
           None \<Rightarrow> None
         | Some r' \<Rightarrow> deleteNode_rebalance (Node (data temp) l r' h)))"

subsection \<open>Search (lines 194--202)\<close>

fun searchNodeUtil :: "tree \<Rightarrow> int \<Rightarrow> tree" where
  "searchNodeUtil Null key = Null"
| "searchNodeUtil (Node d l r h) key =
     (if d = key then Node d l r h
      else if key < d then searchNodeUtil l key
      else searchNodeUtil r key)"

subsection \<open>The public class (lines 204--246)\<close>

text \<open>
  The only member of the class is \<open>root\<close>. \<open>insert\<close> and \<open>remove\<close> replace it;
  \<open>search\<close> makes no assignment, so it returns its answer together with the object as
  it found it.
\<close>

record AVLTree =
  root :: tree

definition AVLTree_new :: AVLTree where
  "AVLTree_new = \<lparr>root = Null\<rparr>"

definition AVLTree_insert :: "int \<Rightarrow> AVLTree \<Rightarrow> AVLTree option" where
  "AVLTree_insert key t =
     (case insertNode (root t) key of
        None \<Rightarrow> None
      | Some r \<Rightarrow> Some (t\<lparr>root := r\<rparr>))"

definition AVLTree_remove :: "int \<Rightarrow> AVLTree \<Rightarrow> AVLTree option" where
  "AVLTree_remove key t =
     (case deleteNode (root t) key of
        None \<Rightarrow> None
      | Some r \<Rightarrow> Some (t\<lparr>root := r\<rparr>))"

definition AVLTree_search :: "int \<Rightarrow> AVLTree \<Rightarrow> bool \<times> AVLTree" where
  "AVLTree_search key t = (searchNodeUtil (root t) key \<noteq> Null, t)"

subsection \<open>Sequences of public operations and the reference set\<close>

datatype operation = Insert int | Remove int

fun apply_operation :: "operation \<Rightarrow> AVLTree \<Rightarrow> AVLTree option" where
  "apply_operation (Insert k) t = AVLTree_insert k t"
| "apply_operation (Remove k) t = AVLTree_remove k t"

fun run :: "operation list \<Rightarrow> AVLTree \<Rightarrow> AVLTree option" where
  "run [] t = Some t"
| "run (x # xs) t =
     (case apply_operation x t of
        None \<Rightarrow> None
      | Some t' \<Rightarrow> run xs t')"

fun reference_step :: "operation \<Rightarrow> int set \<Rightarrow> int set" where
  "reference_step (Insert k) S = S \<union> {k}"
| "reference_step (Remove k) S = S - {k}"

fun reference :: "operation list \<Rightarrow> int set \<Rightarrow> int set" where
  "reference [] S = S"
| "reference (x # xs) S = reference xs (reference_step x S)"

subsection \<open>Keys and invariants\<close>

fun inorder :: "tree \<Rightarrow> int list" where
  "inorder Null = []"
| "inorder (Node d l r h) = inorder l @ d # inorder r"

definition keys :: "tree \<Rightarrow> int set" where
  "keys t = set (inorder t)"

fun bst :: "tree \<Rightarrow> bool" where
  "bst Null = True"
| "bst (Node d l r h) =
     ((\<forall>x \<in> keys l. x < d) \<and> (\<forall>x \<in> keys r. d < x) \<and> bst l \<and> bst r)"

fun balanced :: "tree \<Rightarrow> bool" where
  "balanced Null = True"
| "balanced (Node d l r h) =
     (height l - height r \<in> {-1, 0, 1} \<and> balanced l \<and> balanced r)"

fun height_ok :: "tree \<Rightarrow> bool" where
  "height_ok Null = True"
| "height_ok (Node d l r h) =
     (h = 1 + max (height l) (height r) \<and> height_ok l \<and> height_ok r)"

text \<open>The length of the longest path from a node down to an absent child.\<close>

fun depth :: "tree \<Rightarrow> nat" where
  "depth Null = 0"
| "depth (Node d l r h) = 1 + max (depth l) (depth r)"

definition invariants :: "tree \<Rightarrow> bool" where
  "invariants t = (bst t \<and> balanced t \<and> height_ok t)"

text \<open>The nodes of a tree, each given as the subtree it roots.\<close>

fun subtrees :: "tree \<Rightarrow> tree set" where
  "subtrees Null = {}"
| "subtrees (Node d l r h) = {Node d l r h} \<union> subtrees l \<union> subtrees r"

text \<open>
  After an insertion that made a subtree higher, the side of its root that received the
  key is the higher one by one; a new leaf holds the key itself.
\<close>

definition insert_heavy :: "int \<Rightarrow> tree \<Rightarrow> bool" where
  "insert_heavy k t =
     (case t of
        Null \<Rightarrow> False
      | Node d l r h \<Rightarrow>
          (k < d \<and> height l = height r + 1) \<or>
          (d < k \<and> height r = height l + 1) \<or>
          (k = d \<and> l = Null \<and> r = Null))"

section \<open>Properties\<close>

subsection \<open>Cached heights\<close>

lemma height_ok_depth: "height_ok t \<Longrightarrow> height t = int (depth t)"
  by (induction t) auto

lemma height_ok_nonneg: "height_ok t \<Longrightarrow> 0 \<le> height t"
  by (simp add: height_ok_depth)

lemma height_ok_pos: "height_ok t \<Longrightarrow> t \<noteq> Null \<Longrightarrow> 1 \<le> height t"
  by (cases t) (auto dest: height_ok_nonneg)

lemma height_ok_Null: "height_ok t \<Longrightarrow> height t \<le> 0 \<Longrightarrow> t = Null"
  using height_ok_pos by fastforce

lemma keys_simps [simp]:
  "keys Null = {}"
  "keys (Node d l r h) = insert d (keys l \<union> keys r)"
  by (auto simp: keys_def)

lemma bst_iff_sorted: "bst t = sorted_wrt (<) (inorder t)"
  by (induction t) (fastforce simp: sorted_wrt_append keys_def)+

lemma insertNode_rebalance_left:
  assumes "balanced l'" "height_ok l'" "balanced r" "height_ok r"
    and "height l' - height r \<in> {-1, 0, 1} \<or> (height l' = height r + 2 \<and> insert_heavy k l')"
  shows "\<exists>t'. insertNode_rebalance (Node d l' r h) k = Some t' \<and> balanced t' \<and> height_ok t' \<and>
           (if height l' = height r + 2 then height t' = height r + 2
            else t' = Node d l' r (1 + max (height l') (height r)))"
proof (cases "height l' = height r + 2")
  case False
  with assms show ?thesis
    by (auto simp: insertNode_rebalance_def Let_def)
next
  case True
  with assms(5) have heavy: "insert_heavy k l'" by auto
  from True height_ok_nonneg [OF assms(4)] have "l' \<noteq> Null" by auto
  then obtain ld ll lr lh where l': "l' = Node ld ll lr lh" by (cases l') auto
  from heavy l' True height_ok_nonneg [OF assms(4)] assms(2)
  consider (single) "k < ld" "height ll = height lr + 1"
    | (double) "ld < k" "height lr = height ll + 1"
    by (auto simp: insert_heavy_def)
  then show ?thesis
  proof cases
    case single
    with True l' assms(1-4) show ?thesis
      by (auto simp: insertNode_rebalance_def Let_def)
  next
    case double
    from assms(2) l' have "height_ok ll" "height_ok lr" by auto
    with double height_ok_nonneg [of ll] height_ok_Null [of lr] have "lr \<noteq> Null" by auto
    then obtain lrd lrl lrr lrh where lr: "lr = Node lrd lrl lrr lrh" by (cases lr) auto
    with double True l' assms(1-4) show ?thesis
      by (auto simp: insertNode_rebalance_def Let_def)
  qed
qed


lemma insertNode_rebalance_right:
  assumes "balanced l" "height_ok l" "balanced r'" "height_ok r'"
    and "height l - height r' \<in> {-1, 0, 1} \<or> (height r' = height l + 2 \<and> insert_heavy k r')"
  shows "\<exists>t'. insertNode_rebalance (Node d l r' h) k = Some t' \<and> balanced t' \<and> height_ok t' \<and>
           (if height r' = height l + 2 then height t' = height l + 2
            else t' = Node d l r' (1 + max (height l) (height r')))"
proof (cases "height r' = height l + 2")
  case False
  with assms show ?thesis
    by (auto simp: insertNode_rebalance_def Let_def)
next
  case True
  with assms(5) have heavy: "insert_heavy k r'" by auto
  from True height_ok_nonneg [OF assms(2)] have "r' \<noteq> Null" by auto
  then obtain rd rl rr rh where r': "r' = Node rd rl rr rh" by (cases r') auto
  from heavy r' True height_ok_nonneg [OF assms(2)] assms(4)
  consider (single) "rd < k" "height rr = height rl + 1"
    | (double) "k < rd" "height rl = height rr + 1"
    by (auto simp: insert_heavy_def)
  then show ?thesis
  proof cases
    case single
    with True r' assms(1-4) show ?thesis
      by (auto simp: insertNode_rebalance_def Let_def)
  next
    case double
    from assms(4) r' have "height_ok rl" "height_ok rr" by auto
    with double height_ok_nonneg [of rr] height_ok_Null [of rl] have "rl \<noteq> Null" by auto
    then obtain rld rll rlr rlh where rl: "rl = Node rld rll rlr rlh" by (cases rl) auto
    with double True r' assms(1-4) show ?thesis
      by (auto simp: insertNode_rebalance_def Let_def)
  qed
qed

lemma insertNode_shape:
  "balanced t \<Longrightarrow> height_ok t \<Longrightarrow>
   \<exists>t'. insertNode t k = Some t' \<and> balanced t' \<and> height_ok t' \<and>
        (height t' = height t \<or> (height t' = height t + 1 \<and> insert_heavy k t'))"
proof (induction t)
  case Null
  show ?case by (simp add: insert_heavy_def)
next
  case (Node d l r h)
  from Node.prems have bl: "balanced l" "height_ok l" and br: "balanced r" "height_ok r"
    and bf: "height l - height r \<in> {-1, 0, 1}" and h: "h = 1 + max (height l) (height r)"
    by auto
  consider (lt) "k < d" | (gt) "d < k" | (eq) "k = d" by linarith
  then show ?case
  proof cases
    case eq
    with Node.prems show ?thesis by simp
  next
    case lt
    from Node.IH(1) [OF bl] obtain l' where l': "insertNode l k = Some l'"
      "balanced l'" "height_ok l'"
      "height l' = height l \<or> (height l' = height l + 1 \<and> insert_heavy k l')"
      by blast
    from l'(4) bf have pre: "height l' - height r \<in> {-1, 0, 1} \<or>
        (height l' = height r + 2 \<and> insert_heavy k l')" by auto
    from insertNode_rebalance_left [OF l'(2,3) br pre, of d h]
    obtain t' where t': "insertNode_rebalance (Node d l' r h) k = Some t'"
      "balanced t'" "height_ok t'"
      "if height l' = height r + 2 then height t' = height r + 2
       else t' = Node d l' r (1 + max (height l') (height r))"
      by blast
    have "height t' = h \<or> (height t' = h + 1 \<and> insert_heavy k t')"
      using t'(4) l'(4) bf h lt
      by (auto simp: insert_heavy_def split: if_splits)
    with t'(1-3) l'(1) lt show ?thesis by simp
  next
    case gt
    from Node.IH(2) [OF br] obtain r' where r': "insertNode r k = Some r'"
      "balanced r'" "height_ok r'"
      "height r' = height r \<or> (height r' = height r + 1 \<and> insert_heavy k r')"
      by blast
    from r'(4) bf have pre: "height l - height r' \<in> {-1, 0, 1} \<or>
        (height r' = height l + 2 \<and> insert_heavy k r')" by auto
    from insertNode_rebalance_right [OF bl r'(2,3) pre, of d h]
    obtain t' where t': "insertNode_rebalance (Node d l r' h) k = Some t'"
      "balanced t'" "height_ok t'"
      "if height r' = height l + 2 then height t' = height l + 2
       else t' = Node d l r' (1 + max (height l) (height r'))"
      by blast
    have "height t' = h \<or> (height t' = h + 1 \<and> insert_heavy k t')"
      using t'(4) r'(4) bf h gt
      by (auto simp: insert_heavy_def split: if_splits)
    with t'(1-3) r'(1) gt show ?thesis by simp
  qed
qed

subsection \<open>Deletion keeps the cached heights and the balance\<close>

lemma deleteNode_rebalance_shape:
  assumes "balanced l" "height_ok l" "balanced r" "height_ok r"
    and "height l - height r \<in> {-2, -1, 0, 1, 2}"
  shows "\<exists>t'. deleteNode_rebalance (Node d l r h) = Some t' \<and> balanced t' \<and> height_ok t' \<and>
           (if height l - height r \<in> {-1, 0, 1}
            then t' = Node d l r (1 + max (height l) (height r))
            else height t' = max (height l) (height r) \<or>
                 height t' = 1 + max (height l) (height r))"
proof -
  consider (ok) "height l - height r \<in> {-1, 0, 1}"
    | (lh) "height l = height r + 2" | (rh) "height r = height l + 2"
    using assms(5) by auto
  then show ?thesis
  proof cases
    case ok
    with assms show ?thesis
      by (auto simp: deleteNode_rebalance_def Let_def)
  next
    case lh
    from lh height_ok_nonneg [OF assms(4)] have "l \<noteq> Null" by auto
    then obtain ld ll lr lh' where l: "l = Node ld ll lr lh'" by (cases l) auto
    show ?thesis
    proof (cases "0 \<le> height ll - height lr")
      case True
      with lh l assms(1-4) show ?thesis
        by (auto simp: deleteNode_rebalance_def Let_def)
    next
      case False
      from assms(2) l have "height_ok ll" "height_ok lr" by auto
      with False height_ok_nonneg [of ll] height_ok_Null [of lr] have "lr \<noteq> Null" by auto
      then obtain lrd lrl lrr lrh where lr: "lr = Node lrd lrl lrr lrh" by (cases lr) auto
      with False lh l assms(1-4) show ?thesis
        by (auto simp: deleteNode_rebalance_def Let_def)
    qed
  next
    case rh
    from rh height_ok_nonneg [OF assms(2)] have "r \<noteq> Null" by auto
    then obtain rd rl rr rh' where r: "r = Node rd rl rr rh'" by (cases r) auto
    show ?thesis
    proof (cases "height rl - height rr \<le> 0")
      case True
      with rh r assms(1-4) show ?thesis
        by (auto simp: deleteNode_rebalance_def Let_def)
    next
      case False
      from assms(4) r have "height_ok rl" "height_ok rr" by auto
      with False height_ok_nonneg [of rr] height_ok_Null [of rl] have "rl \<noteq> Null" by auto
      then obtain rld rll rlr rlh where rl: "rl = Node rld rll rlr rlh" by (cases rl) auto
      with False rh r assms(1-4) show ?thesis
        by (auto simp: deleteNode_rebalance_def Let_def)
    qed
  qed
qed

lemma deleteNode_rebalance_id:
  "balanced t \<Longrightarrow> height_ok t \<Longrightarrow> t \<noteq> Null \<Longrightarrow> deleteNode_rebalance t = Some t"
  by (cases t) (auto simp: deleteNode_rebalance_def Let_def)

lemma insertNode_rebalance_id:
  "balanced t \<Longrightarrow> height_ok t \<Longrightarrow> t \<noteq> Null \<Longrightarrow> insertNode_rebalance t k = Some t"
  by (cases t) (auto simp: insertNode_rebalance_def Let_def)

lemma deleteNode_shape:
  "balanced t \<Longrightarrow> height_ok t \<Longrightarrow>
   \<exists>t'. deleteNode t k = Some t' \<and> balanced t' \<and> height_ok t' \<and>
        (height t' = height t \<or> height t' = height t - 1)"
proof (induction t arbitrary: k)
  case Null
  show ?case by simp
next
  case (Node d l r h)
  from Node.prems have bl: "balanced l" "height_ok l" and br: "balanced r" "height_ok r"
    and bf: "height l - height r \<in> {-1, 0, 1}" and h: "h = 1 + max (height l) (height r)"
    by auto
  have left: "\<exists>t'. (case deleteNode l k' of None \<Rightarrow> None
                    | Some l' \<Rightarrow> deleteNode_rebalance (Node d' l' r h)) = Some t' \<and>
                balanced t' \<and> height_ok t' \<and> (height t' = h \<or> height t' = h - 1)" for k' d'
  proof -
    from Node.IH(1) [OF bl, of k'] obtain l' where l': "deleteNode l k' = Some l'"
      "balanced l'" "height_ok l'" "height l' = height l \<or> height l' = height l - 1"
      by blast
    from l'(4) bf have pre: "height l' - height r \<in> {-2, -1, 0, 1, 2}" by auto
    from deleteNode_rebalance_shape [OF l'(2,3) br pre, of d' h]
    obtain t' where t': "deleteNode_rebalance (Node d' l' r h) = Some t'"
      "balanced t'" "height_ok t'"
      "if height l' - height r \<in> {-1, 0, 1}
       then t' = Node d' l' r (1 + max (height l') (height r))
       else height t' = max (height l') (height r) \<or>
            height t' = 1 + max (height l') (height r)"
      by blast
    have "height t' = h \<or> height t' = h - 1"
      using t'(4) l'(4) bf h by (auto split: if_splits)
    with t'(1-3) l'(1) show ?thesis by simp
  qed
  have right: "\<exists>t'. (case deleteNode r k' of None \<Rightarrow> None
                    | Some r' \<Rightarrow> deleteNode_rebalance (Node d' l r' h)) = Some t' \<and>
                balanced t' \<and> height_ok t' \<and> (height t' = h \<or> height t' = h - 1)" for k' d'
  proof -
    from Node.IH(2) [OF br, of k'] obtain r' where r': "deleteNode r k' = Some r'"
      "balanced r'" "height_ok r'" "height r' = height r \<or> height r' = height r - 1"
      by blast
    from r'(4) bf have pre: "height l - height r' \<in> {-2, -1, 0, 1, 2}" by auto
    from deleteNode_rebalance_shape [OF bl r'(2,3) pre, of d' h]
    obtain t' where t': "deleteNode_rebalance (Node d' l r' h) = Some t'"
      "balanced t'" "height_ok t'"
      "if height l - height r' \<in> {-1, 0, 1}
       then t' = Node d' l r' (1 + max (height l) (height r'))
       else height t' = max (height l) (height r') \<or>
            height t' = 1 + max (height l) (height r')"
      by blast
    have "height t' = h \<or> height t' = h - 1"
      using t'(4) r'(4) bf h by (auto split: if_splits)
    with t'(1-3) r'(1) show ?thesis by simp
  qed
  consider (lt) "k < d" | (gt) "d < k" | (leaf) "k = d" "l = Null" "r = Null"
    | (onlyl) "k = d" "l \<noteq> Null" "r = Null" | (onlyr) "k = d" "l = Null" "r \<noteq> Null"
    | (two) "k = d" "l \<noteq> Null" "r \<noteq> Null"
    by fastforce
  then show ?case
  proof cases
    case lt
    with left [where k' = k and d' = d] show ?thesis by simp
  next
    case gt
    with right [where k' = k and d' = d] show ?thesis by simp
  next
    case leaf
    with h show ?thesis by simp
  next
    case onlyl
    with bl bf h height_ok_pos [OF bl(2)] show ?thesis
      by (simp add: deleteNode_rebalance_id)
  next
    case onlyr
    with br bf h height_ok_pos [OF br(2)] show ?thesis
      by (simp add: deleteNode_rebalance_id)
  next
    case two
    with right [where k' = "data (minValueNode r)" and d' = "data (minValueNode r)"] show ?thesis
      by (simp add: Let_def)
  qed
qed

subsection \<open>Keys and search order\<close>

lemma inorder_updateHeight [simp]: "inorder (updateHeight t) = inorder t"
  by (cases t) auto

lemma rightRotate_inorder: "rightRotate t = Some t' \<Longrightarrow> inorder t' = inorder t"
  by (induction t rule: rightRotate.induct) auto

lemma leftRotate_inorder: "leftRotate t = Some t' \<Longrightarrow> inorder t' = inorder t"
  by (induction t rule: leftRotate.induct) auto

lemma insertNode_rebalance_inorder:
  "insertNode_rebalance t k = Some t' \<Longrightarrow> inorder t' = inorder t"
  by (cases t)
     (auto simp: insertNode_rebalance_def Let_def split: if_splits option.splits
           dest!: rightRotate_inorder leftRotate_inorder)

lemma deleteNode_rebalance_inorder:
  "deleteNode_rebalance t = Some t' \<Longrightarrow> inorder t' = inorder t"
  by (cases t)
     (auto simp: deleteNode_rebalance_def Let_def split: if_splits option.splits
           dest!: rightRotate_inorder leftRotate_inorder)

lemma bst_inorder_cong: "inorder t' = inorder t \<Longrightarrow> bst t' = bst t"
  by (simp add: bst_iff_sorted)

lemma keys_inorder_cong: "inorder t' = inorder t \<Longrightarrow> keys t' = keys t"
  by (simp add: keys_def)

lemma insertNode_bst:
  "bst t \<Longrightarrow> insertNode t k = Some t' \<Longrightarrow> bst t' \<and> keys t' = keys t \<union> {k}"
proof (induction t arbitrary: t')
  case Null
  then show ?case by auto
next
  case (Node d l r h)
  consider (lt) "k < d" | (gt) "d < k" | (eq) "k = d" by linarith
  then show ?case
  proof cases
    case eq
    with Node.prems show ?thesis by auto
  next
    case lt
    with Node.prems(2) obtain l' where l': "insertNode l k = Some l'"
      and t': "insertNode_rebalance (Node d l' r h) k = Some t'"
      by (auto split: option.splits)
    from Node.IH(1) [OF _ l'] Node.prems(1) have "bst l'" "keys l' = keys l \<union> {k}" by auto
    with Node.prems(1) lt have "bst (Node d l' r h)" by auto
    moreover have "keys (Node d l' r h) = keys (Node d l r h) \<union> {k}"
      using \<open>keys l' = keys l \<union> {k}\<close> by auto
    moreover note insertNode_rebalance_inorder [OF t']
    ultimately show ?thesis
      using bst_inorder_cong keys_inorder_cong by metis
  next
    case gt
    with Node.prems(2) obtain r' where r': "insertNode r k = Some r'"
      and t': "insertNode_rebalance (Node d l r' h) k = Some t'"
      by (auto split: option.splits)
    from Node.IH(2) [OF _ r'] Node.prems(1) have "bst r'" "keys r' = keys r \<union> {k}" by auto
    with Node.prems(1) gt have "bst (Node d l r' h)" by auto
    moreover have "keys (Node d l r' h) = keys (Node d l r h) \<union> {k}"
      using \<open>keys r' = keys r \<union> {k}\<close> by auto
    moreover note insertNode_rebalance_inorder [OF t']
    ultimately show ?thesis
      using bst_inorder_cong keys_inorder_cong by metis
  qed
qed

lemma minValueNode_min:
  "bst t \<Longrightarrow> t \<noteq> Null \<Longrightarrow>
   minValueNode t \<noteq> Null \<and> data (minValueNode t) \<in> keys t \<and>
   (\<forall>x \<in> keys t. data (minValueNode t) \<le> x)"
proof (induction t rule: minValueNode.induct)
  case 1
  then show ?case by simp
next
  case (2 d r h)
  then show ?case by auto
next
  case (3 d ld ll lr lh r h)
  from 3 have "minValueNode (Node ld ll lr lh) \<noteq> Null"
    "data (minValueNode (Node ld ll lr lh)) \<in> keys (Node ld ll lr lh)"
    "\<forall>x\<in>keys (Node ld ll lr lh). data (minValueNode (Node ld ll lr lh)) \<le> x"
    by auto
  moreover from "3.prems" have "\<forall>x\<in>keys (Node ld ll lr lh). x < d" "\<forall>x\<in>keys r. d < x"
    by auto
  ultimately show ?case
    by (simp del: keys_simps add: keys_simps(2) [of d]) force
qed

lemma deleteNode_bst:
  "bst t \<Longrightarrow> deleteNode t k = Some t' \<Longrightarrow> bst t' \<and> keys t' = keys t - {k}"
proof (induction t arbitrary: k t')
  case Null
  then show ?case by auto
next
  case (Node d l r h)
  from Node.prems(1) have bl: "bst l" and br: "bst r"
    and ll: "\<forall>x\<in>keys l. x < d" and rr: "\<forall>x\<in>keys r. d < x" by auto
  consider (lt) "k < d" | (gt) "d < k" | (leaf) "k = d" "l = Null" "r = Null"
    | (onlyl) "k = d" "l \<noteq> Null" "r = Null" | (onlyr) "k = d" "l = Null" "r \<noteq> Null"
    | (two) "k = d" "l \<noteq> Null" "r \<noteq> Null"
    by fastforce
  then show ?case
  proof cases
    case lt
    with Node.prems(2) obtain l' where l': "deleteNode l k = Some l'"
      and t': "deleteNode_rebalance (Node d l' r h) = Some t'"
      by (auto split: option.splits)
    from Node.IH(1) [OF bl l'] have "bst l'" "keys l' = keys l - {k}" by auto
    with br ll rr lt have "bst (Node d l' r h)" by auto
    moreover have "keys (Node d l' r h) = keys (Node d l r h) - {k}"
      using \<open>keys l' = keys l - {k}\<close> lt rr by auto
    moreover note deleteNode_rebalance_inorder [OF t']
    ultimately show ?thesis
      using bst_inorder_cong keys_inorder_cong by metis
  next
    case gt
    with Node.prems(2) obtain r' where r': "deleteNode r k = Some r'"
      and t': "deleteNode_rebalance (Node d l r' h) = Some t'"
      by (auto split: option.splits)
    from Node.IH(2) [OF br r'] have "bst r'" "keys r' = keys r - {k}" by auto
    with bl ll rr gt have "bst (Node d l r' h)" by auto
    moreover have "keys (Node d l r' h) = keys (Node d l r h) - {k}"
      using \<open>keys r' = keys r - {k}\<close> gt ll by auto
    moreover note deleteNode_rebalance_inorder [OF t']
    ultimately show ?thesis
      using bst_inorder_cong keys_inorder_cong by metis
  next
    case leaf
    with Node.prems(2) show ?thesis by auto
  next
    case onlyl
    with Node.prems(2) have t': "deleteNode_rebalance l = Some t'" by simp
    have "keys l = keys (Node d l r h) - {k}" using onlyl ll by auto
    with bl deleteNode_rebalance_inorder [OF t'] show ?thesis
      using bst_inorder_cong keys_inorder_cong by metis
  next
    case onlyr
    with Node.prems(2) have t': "deleteNode_rebalance r = Some t'" by simp
    have "keys r = keys (Node d l r h) - {k}" using onlyr rr by auto
    with br deleteNode_rebalance_inorder [OF t'] show ?thesis
      using bst_inorder_cong keys_inorder_cong by metis
  next
    case two
    define m where "m = data (minValueNode r)"
    from two Node.prems(2) obtain r' where r': "deleteNode r m = Some r'"
      and t': "deleteNode_rebalance (Node m l r' h) = Some t'"
      by (auto simp: Let_def m_def split: option.splits)
    from minValueNode_min [OF br two(3)] have m: "m \<in> keys r" "\<forall>x\<in>keys r. m \<le> x"
      by (auto simp: m_def)
    from Node.IH(2) [OF br r'] have "bst r'" "keys r' = keys r - {m}" by auto
    with bl ll rr m have "bst (Node m l r' h)" by fastforce
    moreover have "keys (Node m l r' h) = keys (Node d l r h) - {k}"
      using \<open>keys r' = keys r - {m}\<close> two(1) ll rr m by auto
    moreover note deleteNode_rebalance_inorder [OF t']
    ultimately show ?thesis
      using bst_inorder_cong keys_inorder_cong by metis
  qed
qed

lemma search_keys: "bst t \<Longrightarrow> (searchNodeUtil t k \<noteq> Null) = (k \<in> keys t)"
  by (induction t) auto

lemma keys_empty: "keys t = {} \<Longrightarrow> t = Null"
  by (cases t) auto

subsection \<open>Sequences of operations\<close>

lemma insertNode_invariants:
  assumes "invariants t"
  shows "\<exists>t'. insertNode t k = Some t' \<and> invariants t' \<and> keys t' = keys t \<union> {k}"
proof -
  from assms have "balanced t" "height_ok t" "bst t" by (auto simp: invariants_def)
  from insertNode_shape [OF this(1,2), of k] obtain t' where
    t': "insertNode t k = Some t'" "balanced t'" "height_ok t'" by blast
  from insertNode_bst [OF \<open>bst t\<close> t'(1)] t' show ?thesis
    by (simp add: invariants_def)
qed

lemma deleteNode_invariants:
  assumes "invariants t"
  shows "\<exists>t'. deleteNode t k = Some t' \<and> invariants t' \<and> keys t' = keys t - {k}"
proof -
  from assms have "balanced t" "height_ok t" "bst t" by (auto simp: invariants_def)
  from deleteNode_shape [OF this(1,2), of k] obtain t' where
    t': "deleteNode t k = Some t'" "balanced t'" "height_ok t'" by blast
  from deleteNode_bst [OF \<open>bst t\<close> t'(1)] t' show ?thesis
    by (simp add: invariants_def)
qed

lemma apply_operation_invariants:
  assumes "invariants (root s)"
  shows "\<exists>s'. apply_operation x s = Some s' \<and> invariants (root s') \<and>
              keys (root s') = reference_step x (keys (root s))"
proof (cases x)
  case (Insert k)
  with insertNode_invariants [OF assms, of k] show ?thesis
    by (auto simp: AVLTree_insert_def)
next
  case (Remove k)
  with deleteNode_invariants [OF assms, of k] show ?thesis
    by (auto simp: AVLTree_remove_def)
qed

lemma run_invariants:
  "invariants (root s) \<Longrightarrow>
   \<exists>s'. run xs s = Some s' \<and> invariants (root s') \<and>
        keys (root s') = reference xs (keys (root s))"
proof (induction xs arbitrary: s)
  case Nil
  then show ?case by simp
next
  case (Cons x xs)
  from apply_operation_invariants [OF Cons.prems, of x] obtain s1 where
    s1: "apply_operation x s = Some s1" "invariants (root s1)"
        "keys (root s1) = reference_step x (keys (root s))" by blast
  from Cons.IH [OF s1(2)] s1(1,3) show ?case by simp
qed

lemma run_new_invariants:
  "\<exists>s. run xs AVLTree_new = Some s \<and> invariants (root s) \<and> keys (root s) = reference xs {}"
  using run_invariants [of AVLTree_new xs]
  by (simp add: AVLTree_new_def invariants_def)

lemma run_append:
  "run (xs @ ys) s = (case run xs s of None \<Rightarrow> None | Some s' \<Rightarrow> run ys s')"
  by (induction xs arbitrary: s) (auto split: option.splits)

lemma reference_append: "reference (xs @ ys) S = reference ys (reference xs S)"
  by (induction xs arbitrary: S) auto

lemma reference_inserts: "reference (map Insert xs) S = S \<union> set xs"
  by (induction xs arbitrary: S) auto

lemma reference_removes: "reference (map Remove xs) S = S - set xs"
  by (induction xs arbitrary: S) auto

lemma insertNode_present:
  "balanced t \<Longrightarrow> height_ok t \<Longrightarrow> searchNodeUtil t k \<noteq> Null \<Longrightarrow> insertNode t k = Some t"
proof (induction t)
  case Null
  then show ?case by simp
next
  case (Node d l r h)
  then show ?case
    using insertNode_rebalance_id [of "Node d l r h" k]
    by (auto split: if_splits)
qed

lemma deleteNode_absent:
  "balanced t \<Longrightarrow> height_ok t \<Longrightarrow> searchNodeUtil t k = Null \<Longrightarrow> deleteNode t k = Some t"
proof (induction t)
  case Null
  then show ?case by simp
next
  case (Node d l r h)
  then show ?case
    using deleteNode_rebalance_id [of "Node d l r h"]
    by (auto split: if_splits)
qed

lemma search_sound: "searchNodeUtil t k \<noteq> Null \<Longrightarrow> k \<in> keys t"
  by (induction t) (auto split: if_splits)

lemma subtrees_invariants:
  "s \<in> subtrees t \<Longrightarrow> balanced t \<Longrightarrow> height_ok t \<Longrightarrow> balanced s \<and> height_ok s"
  by (induction t) auto

lemma subtrees_depth:
  "s \<in> subtrees t \<Longrightarrow> balanced t \<Longrightarrow> height_ok t \<Longrightarrow> height s = int (depth s)"
  using subtrees_invariants height_ok_depth by blast

lemmas eval_simps =
  AVLTree_new_def AVLTree_insert_def AVLTree_remove_def AVLTree_search_def
  insertNode_rebalance_def deleteNode_rebalance_def Let_def

section \<open>The claims\<close>

text \<open>
  Claim C1 (membership). For every finite sequence of insert and remove operations applied
  to a freshly constructed tree, the sequence runs to its end without reading a null
  pointer, and for every key \<open>k\<close> the answer of \<open>search(k)\<close> on the resulting tree is true
  exactly when \<open>k\<close> is in the reference set obtained by applying the same insertions and
  removals to the empty set.
\<close>

theorem membership_correct:
  "\<exists>t. run ops AVLTree_new = Some t \<and>
       fst (AVLTree_search k t) = (k \<in> reference ops {})"
proof -
  from run_new_invariants [of ops] obtain t where
    t: "run ops AVLTree_new = Some t" "invariants (root t)"
       "keys (root t) = reference ops {}" by blast
  from t(2) have "bst (root t)" by (simp add: invariants_def)
  from search_keys [OF this, of k] t(1,3) show ?thesis
    by (simp add: AVLTree_search_def)
qed

theorem membership_correct_witness:
  "\<exists>t. run [Insert 20, Insert 10, Insert 30, Insert 5, Remove 30] AVLTree_new = Some t \<and>
       fst (AVLTree_search 5 t) =
         (5 \<in> reference [Insert 20, Insert 10, Insert 30, Insert 5, Remove 30] {}) \<and>
       fst (AVLTree_search 5 t) \<and> \<not> fst (AVLTree_search 30 t)"
  using membership_correct [of "[Insert 20, Insert 10, Insert 30, Insert 5, Remove 30]" 5]
  by (simp add: eval_simps)

text \<open>
  Claim C2 (structural invariants). Every tree reached from the empty tree by a sequence of
  insert and remove operations satisfies the three invariants: the search-tree order with
  unique keys, a balance factor \<open>height(left) - height(right)\<close> in \<open>{-1, 0, 1}\<close> at every
  node, and a cached height equal to one plus the larger of the children's heights at every
  node, an absent subtree counting 0. The sequence is arbitrary, so this holds when each
  single operation returns. With the third invariant the cached height of every node is the
  true height of its subtree.
\<close>

theorem invariants_reachable:
  "\<exists>t. run ops AVLTree_new = Some t \<and>
       bst (root t) \<and> balanced (root t) \<and> height_ok (root t) \<and>
       (\<forall>s \<in> subtrees (root t). height s = int (depth s))"
proof -
  from run_new_invariants [of ops] obtain t where
    t: "run ops AVLTree_new = Some t" "invariants (root t)" by blast
  from t(2) have "bst (root t)" "balanced (root t)" "height_ok (root t)"
    by (simp_all add: invariants_def)
  with t(1) subtrees_depth [of _ "root t"] show ?thesis by blast
qed

theorem invariants_reachable_witness:
  "\<exists>t. run [Insert 20, Insert 10, Insert 30, Insert 5, Remove 30] AVLTree_new = Some t \<and>
       bst (root t) \<and> balanced (root t) \<and> height_ok (root t) \<and>
       (\<forall>s \<in> subtrees (root t). height s = int (depth s)) \<and>
       root t = Node 10 (Node 5 Null Null 1) (Node 20 Null Null 1) 2"
  using invariants_reachable [of "[Insert 20, Insert 10, Insert 30, Insert 5, Remove 30]"]
  by (simp add: eval_simps)

lemma reachable_present_insert:
  assumes "run ops AVLTree_new = Some t" and "fst (AVLTree_search k t)"
  shows "AVLTree_insert k t = Some t"
proof -
  from run_new_invariants [of ops] assms(1) have "invariants (root t)" by auto
  then have "balanced (root t)" "height_ok (root t)" by (simp_all add: invariants_def)
  from insertNode_present [OF this, of k] assms(2) show ?thesis
    by (simp add: AVLTree_insert_def AVLTree_search_def)
qed

text \<open>
  Claim C3 (insert of a present key). On every tree reached by the public operations,
  inserting a key that search finds returns the very same tree, with no null pointer
  read; the tree keeps the three invariants. For any key, present or not, a second
  insertion of it returns the tree that the first one produced.
\<close>

theorem insert_present_unchanged:
  assumes "run ops AVLTree_new = Some t"
  shows "(fst (AVLTree_search k t) \<longrightarrow> AVLTree_insert k t = Some t) \<and>
         bst (root t) \<and> balanced (root t) \<and> height_ok (root t) \<and>
         (\<exists>t1. AVLTree_insert k t = Some t1 \<and> AVLTree_insert k t1 = Some t1 \<and>
               (\<forall>j. fst (AVLTree_search j t1) = (j = k \<or> fst (AVLTree_search j t))))"
proof -
  from run_new_invariants [of ops] assms have inv: "invariants (root t)" by auto
  from insertNode_invariants [OF inv, of k] obtain r1 where
    r1: "insertNode (root t) k = Some r1" "invariants r1" "keys r1 = keys (root t) \<union> {k}"
    by blast
  define t1 where "t1 = t\<lparr>root := r1\<rparr>"
  have ins: "AVLTree_insert k t = Some t1"
    using r1(1) by (simp add: AVLTree_insert_def t1_def)
  have "run (ops @ [Insert k]) AVLTree_new = Some t1"
    using assms ins by (simp add: run_append)
  moreover have mem: "fst (AVLTree_search j t1) = (j = k \<or> fst (AVLTree_search j t))" for j
    using search_keys [of r1 j] search_keys [of "root t" j] r1(2,3) inv
    by (auto simp: AVLTree_search_def t1_def invariants_def)
  ultimately have "AVLTree_insert k t1 = Some t1"
    using reachable_present_insert [of "ops @ [Insert k]" t1 k] by simp
  with ins mem inv reachable_present_insert [OF assms, of k] show ?thesis
    by (auto simp: invariants_def)
qed

theorem insert_present_unchanged_witness:
  "run [Insert 10, Insert 20, Insert 30] AVLTree_new =
     Some \<lparr>root = Node 20 (Node 10 Null Null 1) (Node 30 Null Null 1) 2\<rparr> \<and>
   fst (AVLTree_search 30 \<lparr>root = Node 20 (Node 10 Null Null 1) (Node 30 Null Null 1) 2\<rparr>) \<and>
   AVLTree_insert 30 \<lparr>root = Node 20 (Node 10 Null Null 1) (Node 30 Null Null 1) 2\<rparr> =
     Some \<lparr>root = Node 20 (Node 10 Null Null 1) (Node 30 Null Null 1) 2\<rparr>"
proof -
  have r: "run [Insert 10, Insert 20, Insert 30] AVLTree_new =
     Some \<lparr>root = Node 20 (Node 10 Null Null 1) (Node 30 Null Null 1) 2\<rparr>"
    by (simp add: eval_simps)
  have s: "fst (AVLTree_search 30
     \<lparr>root = Node 20 (Node 10 Null Null 1) (Node 30 Null Null 1) 2\<rparr>)"
    by (simp add: eval_simps)
  from insert_present_unchanged [OF r, of 30] s r show ?thesis by blast
qed

text \<open>
  Claim C4 (remove of an absent key). On every tree reached by the public operations,
  removing a key that search does not find returns the very same tree, with no null
  pointer read: the answer of search is the same for every key, and the key is still
  absent.
\<close>

theorem remove_absent_unchanged:
  assumes "run ops AVLTree_new = Some t" and "\<not> fst (AVLTree_search k t)"
  shows "\<exists>t'. AVLTree_remove k t = Some t' \<and> t' = t \<and>
              (\<forall>j. fst (AVLTree_search j t') = fst (AVLTree_search j t)) \<and>
              \<not> fst (AVLTree_search k t')"
proof -
  from run_new_invariants [of ops] assms(1) have "invariants (root t)" by auto
  then have "balanced (root t)" "height_ok (root t)" by (simp_all add: invariants_def)
  from deleteNode_absent [OF this, of k] assms(2) have "AVLTree_remove k t = Some t"
    by (simp add: AVLTree_remove_def AVLTree_search_def)
  with assms(2) show ?thesis by simp
qed

theorem remove_absent_unchanged_witness:
  "run [Insert 10] AVLTree_new = Some \<lparr>root = Node 10 Null Null 1\<rparr> \<and>
   \<not> fst (AVLTree_search 100 \<lparr>root = Node 10 Null Null 1\<rparr>) \<and>
   AVLTree_remove 100 \<lparr>root = Node 10 Null Null 1\<rparr> = Some \<lparr>root = Node 10 Null Null 1\<rparr> \<and>
   fst (AVLTree_search 10 \<lparr>root = Node 10 Null Null 1\<rparr>)"
proof -
  have r: "run [Insert 10] AVLTree_new = Some \<lparr>root = Node 10 Null Null 1\<rparr>"
    by (simp add: eval_simps)
  have s: "\<not> fst (AVLTree_search 100 \<lparr>root = Node 10 Null Null 1\<rparr>)"
    by (simp add: eval_simps)
  from remove_absent_unchanged [OF r s] r s show ?thesis
    by (simp add: AVLTree_search_def)
qed

text \<open>
  Claim C8 (search is pure). \<open>search\<close> hands back the tree exactly as it received it and
  answers with a boolean, never with an error. On every tree, a true answer means that the
  key is stored in the tree; on every tree in search-tree order, and so on every tree
  reached by the public operations, the answer is true exactly when the key is stored.
\<close>

theorem search_pure:
  "snd (AVLTree_search k t) = t \<and>
   (fst (AVLTree_search k t) \<longrightarrow> k \<in> keys (root t)) \<and>
   (bst (root t) \<longrightarrow> fst (AVLTree_search k t) = (k \<in> keys (root t))) \<and>
   (run ops AVLTree_new = Some t \<longrightarrow> fst (AVLTree_search k t) = (k \<in> keys (root t)))"
proof -
  have "run ops AVLTree_new = Some t \<Longrightarrow> bst (root t)"
    using run_new_invariants [of ops] by (auto simp: invariants_def)
  then show ?thesis
    using search_keys [of "root t" k] search_sound [of "root t" k]
    by (auto simp: AVLTree_search_def)
qed

theorem search_pure_witness:
  "run [Insert 10, Insert 20, Insert 30] AVLTree_new =
     Some \<lparr>root = Node 20 (Node 10 Null Null 1) (Node 30 Null Null 1) 2\<rparr> \<and>
   bst (Node 20 (Node 10 Null Null 1) (Node 30 Null Null 1) 2) \<and>
   AVLTree_search 30 \<lparr>root = Node 20 (Node 10 Null Null 1) (Node 30 Null Null 1) 2\<rparr> =
     (True, \<lparr>root = Node 20 (Node 10 Null Null 1) (Node 30 Null Null 1) 2\<rparr>) \<and>
   AVLTree_search 25 \<lparr>root = Node 20 (Node 10 Null Null 1) (Node 30 Null Null 1) 2\<rparr> =
     (False, \<lparr>root = Node 20 (Node 10 Null Null 1) (Node 30 Null Null 1) 2\<rparr>)"
proof -
  let ?t = "\<lparr>root = Node 20 (Node 10 Null Null 1) (Node 30 Null Null 1) 2\<rparr>"
  have r: "run [Insert 10, Insert 20, Insert 30] AVLTree_new = Some ?t"
    by (simp add: eval_simps)
  have b: "bst (root ?t)" by simp
  from search_pure [of 30 ?t "[Insert 10, Insert 20, Insert 30]"]
       search_pure [of 25 ?t "[Insert 10, Insert 20, Insert 30]"] r b
  show ?thesis by (simp add: prod_eq_iff)
qed

text \<open>
  Claim C9 (round trip). For distinct keys \<open>xs\<close> and any rearrangement \<open>ys\<close> of them,
  inserting all of \<open>xs\<close> in the order given into an empty tree and then removing all of
  \<open>ys\<close> in the order given runs to its end and leaves the root absent, and search
  answers false for every one of the keys.
\<close>

theorem round_trip_empty:
  assumes "distinct xs" and "mset ys = mset xs"
  shows "\<exists>t. run (map Insert xs @ map Remove ys) AVLTree_new = Some t \<and> root t = Null \<and>
             (\<forall>k \<in> set xs. \<not> fst (AVLTree_search k t))"
proof -
  from assms(2) have "set ys = set xs" by (rule mset_eq_setD)
  then have "reference (map Insert xs @ map Remove ys) {} = {}"
    by (simp add: reference_append reference_inserts reference_removes)
  with run_new_invariants [of "map Insert xs @ map Remove ys"] obtain t where
    t: "run (map Insert xs @ map Remove ys) AVLTree_new = Some t" "keys (root t) = {}"
    by auto
  from keys_empty [OF t(2)] t(1) show ?thesis
    by (auto simp: AVLTree_search_def)
qed

theorem round_trip_empty_witness:
  "distinct [10, 5, 15, 3, 7 :: int] \<and> mset [7, 10, 3, 15, 5] = mset [10, 5, 15, 3, 7 :: int] \<and>
   (\<exists>t. run (map Insert [10, 5, 15, 3, 7] @ map Remove [7, 10, 3, 15, 5]) AVLTree_new = Some t \<and>
        root t = Null \<and> (\<forall>k \<in> set [10, 5, 15, 3, 7]. \<not> fst (AVLTree_search k t)))"
proof -
  have d: "distinct [10, 5, 15, 3, 7 :: int]" by simp
  have m: "mset [7, 10, 3, 15, 5] = mset [10, 5, 15, 3, 7 :: int]"
    by (simp add: add.commute add.left_commute add_mset_commute)
  from round_trip_empty [OF d m] d m show ?thesis by blast
qed

text \<open>
  Claim C10 (a single child is a leaf). In a tree whose balance factors and cached heights
  are right, a node with exactly one child has a child with cached height 1 and no children
  of its own. Deleting the key of such a node therefore returns that leaf in the place of
  the node, and no subtree of the child is lost.
\<close>

theorem one_child_is_leaf:
  assumes "balanced t" and "height_ok t" and "Node d l r h \<in> subtrees t"
    and "(l = Null) \<noteq> (r = Null)"
  shows "\<exists>cd. (if l \<noteq> Null then l else r) = Node cd Null Null 1 \<and>
              deleteNode (Node d l r h) d = Some (Node cd Null Null 1)"
proof -
  from subtrees_invariants [OF assms(3,1,2)]
  have bl: "balanced l" "height_ok l" and br: "balanced r" "height_ok r"
    and bf: "height l - height r \<in> {-1, 0, 1}" by auto
  define c where "c = (if l \<noteq> Null then l else r)"
  from assms(4) have c: "c \<noteq> Null" and other: "height l = 0 \<or> height r = 0"
    by (auto simp: c_def)
  have bc: "balanced c" "height_ok c" using bl br by (auto simp: c_def)
  from c obtain cd cl cr ch where cn: "c = Node cd cl cr ch" by (cases c) auto
  from height_ok_pos [OF bc(2) c] bf other assms(4) have "height c = 1"
    by (auto simp: c_def split: if_splits)
  with cn bc(2) height_ok_Null [of cl] height_ok_Null [of cr]
  have leaf: "c = Node cd Null Null 1" by auto
  from deleteNode_rebalance_id [OF bc c] assms(4)
  have "deleteNode (Node d l r h) d = Some c"
    by (auto simp: c_def)
  with leaf show ?thesis by (simp add: c_def)
qed

theorem one_child_is_leaf_witness:
  "balanced (Node 10 (Node 5 Null Null 1) (Node 15 Null (Node 17 Null Null 1) 2) 3) \<and>
   height_ok (Node 10 (Node 5 Null Null 1) (Node 15 Null (Node 17 Null Null 1) 2) 3) \<and>
   Node 15 Null (Node 17 Null Null 1) 2
     \<in> subtrees (Node 10 (Node 5 Null Null 1) (Node 15 Null (Node 17 Null Null 1) 2) 3) \<and>
   deleteNode (Node 15 Null (Node 17 Null Null 1) 2) 15 = Some (Node 17 Null Null 1)"
proof -
  let ?t = "Node 10 (Node 5 Null Null 1) (Node 15 Null (Node 17 Null Null 1) 2) 3"
  have b: "balanced ?t" and h: "height_ok ?t" by simp_all
  have s: "Node 15 Null (Node 17 Null Null 1) 2 \<in> subtrees ?t" by simp
  have n: "(Null = Null) \<noteq> (Node 17 Null Null 1 = Null)" by simp
  from one_child_is_leaf [OF b h s n] b h s show ?thesis by auto
qed

lemma insert_left_balance:
  assumes "balanced (Node d l r h)" and "height_ok (Node d l r h)"
  shows "\<exists>l'. insertNode l key = Some l' \<and> -1 \<le> height l' - height r \<and>
              (1 < height l' - height r \<longrightarrow> l' \<noteq> Null \<and> key \<noteq> data l')"
proof -
  from assms have bl: "balanced l" "height_ok l" and hr: "height_ok r"
    and bf: "height l - height r \<in> {-1, 0, 1}" by auto
  from insertNode_shape [OF bl, of key] obtain l' where l': "insertNode l key = Some l'"
    "height_ok l'"
    "height l' = height l \<or> (height l' = height l + 1 \<and> insert_heavy key l')"
    by blast
  have "l' \<noteq> Null \<and> key \<noteq> data l'" if "1 < height l' - height r"
  proof -
    from that l'(3) bf have hv: "insert_heavy key l'" and "2 \<le> height l'"
      using height_ok_nonneg [OF hr] by auto
    with l'(2) show ?thesis
      by (cases l') (auto simp: insert_heavy_def)
  qed
  with l' bf show ?thesis by auto
qed

lemma insert_right_balance:
  assumes "balanced (Node d l r h)" and "height_ok (Node d l r h)"
  shows "\<exists>r'. insertNode r key = Some r' \<and> height l - height r' \<le> 1 \<and>
              (height l - height r' < -1 \<longrightarrow> r' \<noteq> Null \<and> key \<noteq> data r')"
proof -
  from assms have br: "balanced r" "height_ok r" and hl: "height_ok l"
    and bf: "height l - height r \<in> {-1, 0, 1}" by auto
  from insertNode_shape [OF br, of key] obtain r' where r': "insertNode r key = Some r'"
    "height_ok r'"
    "height r' = height r \<or> (height r' = height r + 1 \<and> insert_heavy key r')"
    by blast
  have "r' \<noteq> Null \<and> key \<noteq> data r'" if "height l - height r' < -1"
  proof -
    from that r'(3) bf have hv: "insert_heavy key r'" and "2 \<le> height r'"
      using height_ok_nonneg [OF hl] by auto
    with r'(2) show ?thesis
      by (cases r') (auto simp: insert_heavy_def)
  qed
  with r' bf show ?thesis by auto
qed

text \<open>
  Claim C5 (rebalancing on insert). At a node of \<open>insertNode\<close>, after the recursive call
  has returned and been reattached, the height is recomputed and the balance factor
  \<open>bf\<close> is taken. With \<open>bf > 1\<close>, a key below the left child's key gives a right rotation
  of the node, and a key above it a left rotation of the left child followed by a right
  rotation of the node; with \<open>bf < -1\<close>, a key above the right child's key gives a left
  rotation of the node, and a key below it a right rotation of the right child followed
  by a left rotation of the node; with \<open>bf\<close> in \<open>{-1, 0, 1}\<close> the node is returned with
  its new height. The four tests exclude each other. At a node of a tree whose balance
  factors and cached heights are right, the recursive insertion returns, and whenever the
  balance factor then leaves \<open>{-1, 0, 1}\<close> it does so on the side that was descended
  into, the child there is present and its key differs from the inserted key, so one of
  the four cases applies, and the insertion at the node returns a tree.
\<close>

theorem insert_rebalance_cases:
  "(let node = updateHeight (Node d l r h); bf = getBalance node in
      (1 < bf \<and> l \<noteq> Null \<and> key < data l \<longrightarrow>
         insertNode_rebalance (Node d l r h) key = rightRotate node) \<and>
      (bf < -1 \<and> r \<noteq> Null \<and> data r < key \<longrightarrow>
         insertNode_rebalance (Node d l r h) key = leftRotate node) \<and>
      (1 < bf \<and> l \<noteq> Null \<and> data l < key \<longrightarrow>
         insertNode_rebalance (Node d l r h) key =
           (case leftRotate l of None \<Rightarrow> None
            | Some l' \<Rightarrow> rightRotate (Node d l' r (height node)))) \<and>
      (bf < -1 \<and> r \<noteq> Null \<and> key < data r \<longrightarrow>
         insertNode_rebalance (Node d l r h) key =
           (case rightRotate r of None \<Rightarrow> None
            | Some r' \<Rightarrow> leftRotate (Node d l r' (height node)))) \<and>
      (-1 \<le> bf \<and> bf \<le> 1 \<longrightarrow> insertNode_rebalance (Node d l r h) key = Some node)) \<and>
   insertNode (Node d l r h) key =
     (if key < d then
        (case insertNode l key of None \<Rightarrow> None
         | Some l' \<Rightarrow> insertNode_rebalance (Node d l' r h) key)
      else if d < key then
        (case insertNode r key of None \<Rightarrow> None
         | Some r' \<Rightarrow> insertNode_rebalance (Node d l r' h) key)
      else Some (Node d l r h)) \<and>
   (balanced (Node d l r h) \<and> height_ok (Node d l r h) \<longrightarrow>
      (\<exists>l'. insertNode l key = Some l' \<and>
         (let bf = getBalance (updateHeight (Node d l' r h)) in
            -1 \<le> bf \<and> (1 < bf \<longrightarrow> l' \<noteq> Null \<and> (key < data l' \<or> data l' < key)))) \<and>
      (\<exists>r'. insertNode r key = Some r' \<and>
         (let bf = getBalance (updateHeight (Node d l r' h)) in
            bf \<le> 1 \<and> (bf < -1 \<longrightarrow> r' \<noteq> Null \<and> (data r' < key \<or> key < data r')))) \<and>
      (\<exists>t'. insertNode (Node d l r h) key = Some t'))"
proof (intro conjI)
  show "let node = updateHeight (Node d l r h); bf = getBalance node in
      (1 < bf \<and> l \<noteq> Null \<and> key < data l \<longrightarrow>
         insertNode_rebalance (Node d l r h) key = rightRotate node) \<and>
      (bf < -1 \<and> r \<noteq> Null \<and> data r < key \<longrightarrow>
         insertNode_rebalance (Node d l r h) key = leftRotate node) \<and>
      (1 < bf \<and> l \<noteq> Null \<and> data l < key \<longrightarrow>
         insertNode_rebalance (Node d l r h) key =
           (case leftRotate l of None \<Rightarrow> None
            | Some l' \<Rightarrow> rightRotate (Node d l' r (height node)))) \<and>
      (bf < -1 \<and> r \<noteq> Null \<and> key < data r \<longrightarrow>
         insertNode_rebalance (Node d l r h) key =
           (case rightRotate r of None \<Rightarrow> None
            | Some r' \<Rightarrow> leftRotate (Node d l r' (height node)))) \<and>
      (-1 \<le> bf \<and> bf \<le> 1 \<longrightarrow> insertNode_rebalance (Node d l r h) key = Some node)"
    by (simp add: insertNode_rebalance_def Let_def split: option.splits)
next
  show "insertNode (Node d l r h) key =
     (if key < d then
        (case insertNode l key of None \<Rightarrow> None
         | Some l' \<Rightarrow> insertNode_rebalance (Node d l' r h) key)
      else if d < key then
        (case insertNode r key of None \<Rightarrow> None
         | Some r' \<Rightarrow> insertNode_rebalance (Node d l r' h) key)
      else Some (Node d l r h))"
    by simp
next
  show "balanced (Node d l r h) \<and> height_ok (Node d l r h) \<longrightarrow>
      (\<exists>l'. insertNode l key = Some l' \<and>
         (let bf = getBalance (updateHeight (Node d l' r h)) in
            -1 \<le> bf \<and> (1 < bf \<longrightarrow> l' \<noteq> Null \<and> (key < data l' \<or> data l' < key)))) \<and>
      (\<exists>r'. insertNode r key = Some r' \<and>
         (let bf = getBalance (updateHeight (Node d l r' h)) in
            bf \<le> 1 \<and> (bf < -1 \<longrightarrow> r' \<noteq> Null \<and> (data r' < key \<or> key < data r')))) \<and>
      (\<exists>t'. insertNode (Node d l r h) key = Some t')"
  proof
    assume inv: "balanced (Node d l r h) \<and> height_ok (Node d l r h)"
    then have b: "balanced (Node d l r h)" and ho: "height_ok (Node d l r h)" by blast+
    from insert_left_balance [OF b ho, of key] obtain l' where
      l': "insertNode l key = Some l'" "-1 \<le> height l' - height r"
        "1 < height l' - height r \<longrightarrow> l' \<noteq> Null \<and> key \<noteq> data l'" by blast
    from insert_right_balance [OF b ho, of key] obtain r' where
      r': "insertNode r key = Some r'" "height l - height r' \<le> 1"
        "height l - height r' < -1 \<longrightarrow> r' \<noteq> Null \<and> key \<noteq> data r'" by blast
    from insertNode_shape [OF b ho, of key] obtain t' where
      t': "insertNode (Node d l r h) key = Some t'" by blast
    have "\<exists>l'. insertNode l key = Some l' \<and>
         (let bf = getBalance (updateHeight (Node d l' r h)) in
            -1 \<le> bf \<and> (1 < bf \<longrightarrow> l' \<noteq> Null \<and> (key < data l' \<or> data l' < key)))"
      using l' by (auto simp: Let_def)
    moreover have "\<exists>r'. insertNode r key = Some r' \<and>
         (let bf = getBalance (updateHeight (Node d l r' h)) in
            bf \<le> 1 \<and> (bf < -1 \<longrightarrow> r' \<noteq> Null \<and> (data r' < key \<or> key < data r')))"
      using r' by (auto simp: Let_def)
    ultimately show "(\<exists>l'. insertNode l key = Some l' \<and>
         (let bf = getBalance (updateHeight (Node d l' r h)) in
            -1 \<le> bf \<and> (1 < bf \<longrightarrow> l' \<noteq> Null \<and> (key < data l' \<or> data l' < key)))) \<and>
      (\<exists>r'. insertNode r key = Some r' \<and>
         (let bf = getBalance (updateHeight (Node d l r' h)) in
            bf \<le> 1 \<and> (bf < -1 \<longrightarrow> r' \<noteq> Null \<and> (data r' < key \<or> key < data r')))) \<and>
      (\<exists>t'. insertNode (Node d l r h) key = Some t')"
      using t' by blast
  qed
qed


theorem insert_rebalance_cases_witness:
  "balanced (Node 30 (Node 20 Null Null 1) Null 2) \<and>
   height_ok (Node 30 (Node 20 Null Null 1) Null 2) \<and>
   insertNode (Node 20 Null Null 1) 10 = Some (Node 20 (Node 10 Null Null 1) Null 2) \<and>
   getBalance (updateHeight (Node 30 (Node 20 (Node 10 Null Null 1) Null 2) Null 2)) = 2 \<and>
   10 < data (Node 20 (Node 10 Null Null 1) Null 2) \<and>
   insertNode_rebalance (Node 30 (Node 20 (Node 10 Null Null 1) Null 2) Null 2) 10 =
     rightRotate (updateHeight (Node 30 (Node 20 (Node 10 Null Null 1) Null 2) Null 2)) \<and>
   insertNode (Node 30 (Node 20 Null Null 1) Null 2) 10 =
     Some (Node 20 (Node 10 Null Null 1) (Node 30 Null Null 1) 2)"
  using insert_rebalance_cases [of 30 "Node 20 Null Null 1" Null 2 10]
        insert_rebalance_cases [of 30 "Node 20 (Node 10 Null Null 1) Null 2" Null 2 10]
  by (simp add: eval_simps)

text \<open>
  Claim C6 (rebalancing on remove). At a node of \<open>deleteNode\<close> that is still present
  after the deletion below it, the height is recomputed and the balance factor \<open>bf\<close> is
  taken. With \<open>bf > 1\<close>, a left child with balance factor at least 0 gives a right rotation
  of the node, and one with a negative balance factor a left rotation of the left child
  followed by a right rotation of the node; with \<open>bf < -1\<close>, a right child with balance
  factor at most 0 gives a left rotation of the node, and one with a positive balance
  factor a right rotation of the right child followed by a left rotation of the node;
  otherwise the node is returned with its new height. This step follows the recursive call
  in every branch of \<open>deleteNode\<close>, so it runs at every node on the way back up. At a node
  of a tree whose balance factors and cached heights are right, the recursive deletion on
  either side returns, and the step after it returns a tree whose balance factors and
  cached heights are right again.
\<close>

theorem delete_rebalance_cases:
  "(let node = updateHeight (Node d l r h); bf = getBalance node in
      (1 < bf \<and> 0 \<le> getBalance l \<longrightarrow>
         deleteNode_rebalance (Node d l r h) = rightRotate node) \<and>
      (1 < bf \<and> getBalance l < 0 \<longrightarrow>
         deleteNode_rebalance (Node d l r h) =
           (case leftRotate l of None \<Rightarrow> None
            | Some l' \<Rightarrow> rightRotate (Node d l' r (height node)))) \<and>
      (bf < -1 \<and> getBalance r \<le> 0 \<longrightarrow>
         deleteNode_rebalance (Node d l r h) = leftRotate node) \<and>
      (bf < -1 \<and> 0 < getBalance r \<longrightarrow>
         deleteNode_rebalance (Node d l r h) =
           (case rightRotate r of None \<Rightarrow> None
            | Some r' \<Rightarrow> leftRotate (Node d l r' (height node)))) \<and>
      (-1 \<le> bf \<and> bf \<le> 1 \<longrightarrow> deleteNode_rebalance (Node d l r h) = Some node)) \<and>
   deleteNode (Node d l r h) key =
     (if key < d then
        (case deleteNode l key of None \<Rightarrow> None
         | Some l' \<Rightarrow> deleteNode_rebalance (Node d l' r h))
      else if d < key then
        (case deleteNode r key of None \<Rightarrow> None
         | Some r' \<Rightarrow> deleteNode_rebalance (Node d l r' h))
      else if l = Null \<and> r = Null then Some Null
      else if r = Null then deleteNode_rebalance l
      else if l = Null then deleteNode_rebalance r
      else
        (case deleteNode r (data (minValueNode r)) of None \<Rightarrow> None
         | Some r' \<Rightarrow> deleteNode_rebalance (Node (data (minValueNode r)) l r' h))) \<and>
   (balanced (Node d l r h) \<and> height_ok (Node d l r h) \<longrightarrow>
      (\<exists>l' t'. deleteNode l key = Some l' \<and>
         deleteNode_rebalance (Node d l' r h) = Some t' \<and> balanced t' \<and> height_ok t') \<and>
      (\<exists>r' t'. deleteNode r key = Some r' \<and>
         deleteNode_rebalance (Node d l r' h) = Some t' \<and> balanced t' \<and> height_ok t'))"
proof (intro conjI)
  show "let node = updateHeight (Node d l r h); bf = getBalance node in
      (1 < bf \<and> 0 \<le> getBalance l \<longrightarrow>
         deleteNode_rebalance (Node d l r h) = rightRotate node) \<and>
      (1 < bf \<and> getBalance l < 0 \<longrightarrow>
         deleteNode_rebalance (Node d l r h) =
           (case leftRotate l of None \<Rightarrow> None
            | Some l' \<Rightarrow> rightRotate (Node d l' r (height node)))) \<and>
      (bf < -1 \<and> getBalance r \<le> 0 \<longrightarrow>
         deleteNode_rebalance (Node d l r h) = leftRotate node) \<and>
      (bf < -1 \<and> 0 < getBalance r \<longrightarrow>
         deleteNode_rebalance (Node d l r h) =
           (case rightRotate r of None \<Rightarrow> None
            | Some r' \<Rightarrow> leftRotate (Node d l r' (height node)))) \<and>
      (-1 \<le> bf \<and> bf \<le> 1 \<longrightarrow> deleteNode_rebalance (Node d l r h) = Some node)"
    by (simp add: deleteNode_rebalance_def Let_def split: option.splits)
next
  show "deleteNode (Node d l r h) key =
     (if key < d then
        (case deleteNode l key of None \<Rightarrow> None
         | Some l' \<Rightarrow> deleteNode_rebalance (Node d l' r h))
      else if d < key then
        (case deleteNode r key of None \<Rightarrow> None
         | Some r' \<Rightarrow> deleteNode_rebalance (Node d l r' h))
      else if l = Null \<and> r = Null then Some Null
      else if r = Null then deleteNode_rebalance l
      else if l = Null then deleteNode_rebalance r
      else
        (case deleteNode r (data (minValueNode r)) of None \<Rightarrow> None
         | Some r' \<Rightarrow> deleteNode_rebalance (Node (data (minValueNode r)) l r' h)))"
    by (simp add: Let_def)
next
  show "balanced (Node d l r h) \<and> height_ok (Node d l r h) \<longrightarrow>
      (\<exists>l' t'. deleteNode l key = Some l' \<and>
         deleteNode_rebalance (Node d l' r h) = Some t' \<and> balanced t' \<and> height_ok t') \<and>
      (\<exists>r' t'. deleteNode r key = Some r' \<and>
         deleteNode_rebalance (Node d l r' h) = Some t' \<and> balanced t' \<and> height_ok t')"
  proof
    assume inv: "balanced (Node d l r h) \<and> height_ok (Node d l r h)"
    then have bl: "balanced l" "height_ok l" and br: "balanced r" "height_ok r"
      and bf: "height l - height r \<in> {-1, 0, 1}" by auto
    from deleteNode_shape [OF bl, of key] obtain l' where l': "deleteNode l key = Some l'"
      "balanced l'" "height_ok l'" "height l' = height l \<or> height l' = height l - 1"
      by blast
    from l'(4) bf have "height l' - height r \<in> {-2, -1, 0, 1, 2}" by auto
    from deleteNode_rebalance_shape [OF l'(2,3) br this, of d h] l'(1)
    have left: "\<exists>l' t'. deleteNode l key = Some l' \<and>
         deleteNode_rebalance (Node d l' r h) = Some t' \<and> balanced t' \<and> height_ok t'"
      by blast
    from deleteNode_shape [OF br, of key] obtain r' where r': "deleteNode r key = Some r'"
      "balanced r'" "height_ok r'" "height r' = height r \<or> height r' = height r - 1"
      by blast
    from r'(4) bf have "height l - height r' \<in> {-2, -1, 0, 1, 2}" by auto
    from deleteNode_rebalance_shape [OF bl r'(2,3) this, of d h] r'(1)
    have right: "\<exists>r' t'. deleteNode r key = Some r' \<and>
         deleteNode_rebalance (Node d l r' h) = Some t' \<and> balanced t' \<and> height_ok t'"
      by blast
    from left right show "(\<exists>l' t'. deleteNode l key = Some l' \<and>
         deleteNode_rebalance (Node d l' r h) = Some t' \<and> balanced t' \<and> height_ok t') \<and>
      (\<exists>r' t'. deleteNode r key = Some r' \<and>
         deleteNode_rebalance (Node d l r' h) = Some t' \<and> balanced t' \<and> height_ok t')"
      by (rule conjI)
  qed
qed

theorem delete_rebalance_cases_witness:
  "balanced (Node 20 (Node 10 (Node 5 Null Null 1) Null 2) (Node 30 Null Null 1) 3) \<and>
   height_ok (Node 20 (Node 10 (Node 5 Null Null 1) Null 2) (Node 30 Null Null 1) 3) \<and>
   deleteNode (Node 30 Null Null 1) 30 = Some Null \<and>
   getBalance (updateHeight (Node 20 (Node 10 (Node 5 Null Null 1) Null 2) Null 3)) = 2 \<and>
   0 \<le> getBalance (Node 10 (Node 5 Null Null 1) Null 2) \<and>
   deleteNode_rebalance (Node 20 (Node 10 (Node 5 Null Null 1) Null 2) Null 3) =
     rightRotate (updateHeight (Node 20 (Node 10 (Node 5 Null Null 1) Null 2) Null 3)) \<and>
   deleteNode (Node 20 (Node 10 (Node 5 Null Null 1) Null 2) (Node 30 Null Null 1) 3) 30 =
     Some (Node 10 (Node 5 Null Null 1) (Node 20 Null Null 1) 2)"
  using delete_rebalance_cases
          [of 20 "Node 10 (Node 5 Null Null 1) Null 2" "Node 30 Null Null 1" 3 30]
        delete_rebalance_cases [of 20 "Node 10 (Node 5 Null Null 1) Null 2" Null 3 30]
  by (simp add: eval_simps)

text \<open>
  Claim C7 (rotations). A right rotation around a node \<open>y\<close> whose left child \<open>x\<close> is
  present returns \<open>x\<close> as the root, with the former right subtree \<open>T2\<close> of \<open>x\<close> as the
  left subtree of \<open>y\<close> and \<open>y\<close> as the right child of \<open>x\<close>; the height of \<open>y\<close> is
  recomputed from \<open>T2\<close> and \<open>T3\<close>, and the height of \<open>x\<close> from \<open>T1\<close> and that new
  height of \<open>y\<close>. The left rotation is the mirror image. The cached heights of the rotated
  subtree are right wherever those of \<open>T1\<close>, \<open>T2\<close> and \<open>T3\<close> are. Whenever a rotation
  returns a tree, that tree has the same keys in the same in-order sequence, hence the same
  multiset of keys, and it is in search-tree order if the tree given was.
\<close>

theorem rotation_correct:
  "rightRotate (Node yd (Node xd T1 T2 xh) T3 yh) =
     Some (Node xd T1 (Node yd T2 T3 (1 + max (height T2) (height T3)))
             (1 + max (height T1) (1 + max (height T2) (height T3)))) \<and>
   leftRotate (Node xd T1 (Node yd T2 T3 yh) xh) =
     Some (Node yd (Node xd T1 T2 (1 + max (height T1) (height T2))) T3
             (1 + max (1 + max (height T1) (height T2)) (height T3))) \<and>
   (height_ok T1 \<and> height_ok T2 \<and> height_ok T3 \<longrightarrow>
      (\<exists>t'. rightRotate (Node yd (Node xd T1 T2 xh) T3 yh) = Some t' \<and> height_ok t') \<and>
      (\<exists>t'. leftRotate (Node xd T1 (Node yd T2 T3 yh) xh) = Some t' \<and> height_ok t')) \<and>
   (\<forall>t t'. rightRotate t = Some t' \<or> leftRotate t = Some t' \<longrightarrow>
      inorder t' = inorder t \<and> mset (inorder t') = mset (inorder t) \<and>
      keys t' = keys t \<and> (bst t \<longrightarrow> bst t'))"
proof (intro conjI)
  show "rightRotate (Node yd (Node xd T1 T2 xh) T3 yh) =
     Some (Node xd T1 (Node yd T2 T3 (1 + max (height T2) (height T3)))
             (1 + max (height T1) (1 + max (height T2) (height T3))))"
    by (simp add: Let_def)
  show "leftRotate (Node xd T1 (Node yd T2 T3 yh) xh) =
     Some (Node yd (Node xd T1 T2 (1 + max (height T1) (height T2))) T3
             (1 + max (1 + max (height T1) (height T2)) (height T3)))"
    by (simp add: Let_def)
  show "height_ok T1 \<and> height_ok T2 \<and> height_ok T3 \<longrightarrow>
      (\<exists>t'. rightRotate (Node yd (Node xd T1 T2 xh) T3 yh) = Some t' \<and> height_ok t') \<and>
      (\<exists>t'. leftRotate (Node xd T1 (Node yd T2 T3 yh) xh) = Some t' \<and> height_ok t')"
    by (simp add: Let_def)
  show "\<forall>t t'. rightRotate t = Some t' \<or> leftRotate t = Some t' \<longrightarrow>
      inorder t' = inorder t \<and> mset (inorder t') = mset (inorder t) \<and>
      keys t' = keys t \<and> (bst t \<longrightarrow> bst t')"
  proof (intro allI impI)
    fix t t'
    assume "rightRotate t = Some t' \<or> leftRotate t = Some t'"
    then have "inorder t' = inorder t"
      using rightRotate_inorder leftRotate_inorder by blast
    then show "inorder t' = inorder t \<and> mset (inorder t') = mset (inorder t) \<and>
      keys t' = keys t \<and> (bst t \<longrightarrow> bst t')"
      by (simp add: bst_iff_sorted keys_def)
  qed
qed

theorem rotation_correct_witness:
  "height_ok (Node 10 Null Null 1) \<and> height_ok Null \<and>
   bst (Node 30 (Node 20 (Node 10 Null Null 1) Null 2) Null 3) \<and>
   rightRotate (Node 30 (Node 20 (Node 10 Null Null 1) Null 2) Null 3) =
     Some (Node 20 (Node 10 Null Null 1) (Node 30 Null Null 1) 2) \<and>
   height_ok (Node 20 (Node 10 Null Null 1) (Node 30 Null Null 1) 2) \<and>
   bst (Node 20 (Node 10 Null Null 1) (Node 30 Null Null 1) 2) \<and>
   inorder (Node 20 (Node 10 Null Null 1) (Node 30 Null Null 1) 2) =
     inorder (Node 30 (Node 20 (Node 10 Null Null 1) Null 2) Null 3) \<and>
   leftRotate (Node 10 Null (Node 20 Null (Node 30 Null Null 1) 2) 3) =
     Some (Node 20 (Node 10 Null Null 1) (Node 30 Null Null 1) 2)"
  using rotation_correct [of 30 20 "Node 10 Null Null 1" Null 2 Null 3]
        rotation_correct [of 20 10 Null Null 3 "Node 30 Null Null 1" 2]
  by (simp add: Let_def)

end
